theory Spec2Isabelle
  imports Main "HOL-Library.Word" "HOL-Library.Monad_Syntax"
begin

unbundle bit_operations_syntax

section \<open>Machine types and constants of ImuProt.h\<close>

text \<open>
  \<open>uint8_t\<close>, \<open>uint16_t\<close> (also \<open>unsigned short\<close>) and \<open>uint32_t\<close> are words of
  the matching width. A byte buffer handed over as a pointer is the list of the bytes
  that may be read through it. The conversions \<open>tempFromKelvin\<close>, \<open>tempToKelvin\<close> and
  \<open>floatData\<close> compute in single-precision floating point and are not part of this
  development.
\<close>

type_synonym u8 = "8 word"
type_synonym u16 = "16 word"
type_synonym u32 = "32 word"

definition IMU_PROT_HEADER :: u16 where
  "IMU_PROT_HEADER = 0x9574"

definition CRC32_INITIAL :: u32 where
  "CRC32_INITIAL = 0xFFFFFFFF"

definition CRC32_POLYNOM :: u32 where
  "CRC32_POLYNOM = 0xEDB88320"

datatype ImuProtError_t =
    IMU_PROT_OK
  | IMU_PROT_BAD_HEADER
  | IMU_PROT_BAD_SEQUENCER
  | IMU_PROT_BAD_CRC

text \<open>
  The header holds two bodies of \<open>protCRC32\<close>, chosen by the preprocessor symbol
  \<open>SOFT_CRC\<close>. The build is a parameter of the model.
\<close>

datatype crc_build = SOFT_CRC | TABLE_CRC

section \<open>Reading the buffer\<close>

text \<open>
  A read at an offset the buffer does not have is undefined in C; the model returns
  \<open>None\<close> there. Multi-byte members are read in the byte order of the little-endian
  hosts the example driver runs on (its packets start with the bytes 74 95 for the
  header 0x9574).
\<close>

definition read_u8 :: "u8 list \<Rightarrow> nat \<Rightarrow> u8 option" where
  "read_u8 buffer off = (if off < length buffer then Some (buffer ! off) else None)"

definition read_u16 :: "u8 list \<Rightarrow> nat \<Rightarrow> u16 option" where
  "read_u16 buffer off =
     do {
       b0 \<leftarrow> read_u8 buffer off;
       b1 \<leftarrow> read_u8 buffer (off + 1);
       Some (ucast b0 OR push_bit 8 (ucast b1))
     }"

definition read_u32 :: "u8 list \<Rightarrow> nat \<Rightarrow> u32 option" where
  "read_u32 buffer off =
     do {
       b0 \<leftarrow> read_u8 buffer off;
       b1 \<leftarrow> read_u8 buffer (off + 1);
       b2 \<leftarrow> read_u8 buffer (off + 2);
       b3 \<leftarrow> read_u8 buffer (off + 3);
       Some (ucast b0 OR push_bit 8 (ucast b1) OR push_bit 16 (ucast b2)
             OR push_bit 24 (ucast b3))
     }"

section \<open>CRC32, bit by bit (\<open>SOFT_CRC\<close>)\<close>

text \<open>The inner loop \<open>for (j = 0; j < 8; j++)\<close> over an \<open>unsigned short\<close> counter.\<close>

function protCRC32_soft_bits :: "u16 \<Rightarrow> u32 \<Rightarrow> u32" where
  "protCRC32_soft_bits j crc =
     (if j < 8
      then protCRC32_soft_bits (j + 1)
             (if crc AND 1 \<noteq> 0 then drop_bit 1 crc XOR CRC32_POLYNOM else drop_bit 1 crc)
      else crc)"
  by pat_completeness auto
termination
  by (relation "measure (\<lambda>(j, crc). 8 - unat j)")
     (simp_all add: word_less_nat_alt unat_word_ariths)

declare protCRC32_soft_bits.simps [simp del]

text \<open>
  The outer loop \<open>for (i = 0; i < len; i++)\<close>; \<open>*buff++\<close> reads the byte at index
  \<open>i\<close>. The counter cannot wrap: it is below \<open>len\<close> when it is incremented.
\<close>

function protCRC32_soft_loop :: "u8 list \<Rightarrow> u16 \<Rightarrow> u16 \<Rightarrow> u32 \<Rightarrow> u32 option" where
  "protCRC32_soft_loop buff len i crc =
     (if i < len
      then (case read_u8 buff (unat i) of
              None \<Rightarrow> None
            | Some b \<Rightarrow>
                protCRC32_soft_loop buff len (i + 1) (protCRC32_soft_bits 0 (crc XOR ucast b)))
      else Some crc)"
  by pat_completeness auto
termination
proof (relation "measure (\<lambda>(buff, len, i, crc). unat len - unat i)", goal_cases)
  case 1
  show ?case by simp
next
  case (2 buff len i crc b)
  have "unat len < 2 ^ 16"
    using unsigned_less [of len, where 'a = nat] by simp
  with 2 show ?case
    by (simp add: word_less_nat_alt unat_word_ariths)
qed

declare protCRC32_soft_loop.simps [simp del]

section \<open>CRC32 by table\<close>

definition crc32_ccitt_table :: "u32 list" where
  "crc32_ccitt_table = [
     0x00000000, 0x77073096, 0xee0e612c, 0x990951ba, 0x076dc419,
     0x706af48f, 0xe963a535, 0x9e6495a3, 0x0edb8832, 0x79dcb8a4,
     0xe0d5e91e, 0x97d2d988, 0x09b64c2b, 0x7eb17cbd, 0xe7b82d07,
     0x90bf1d91, 0x1db71064, 0x6ab020f2, 0xf3b97148, 0x84be41de,
     0x1adad47d, 0x6ddde4eb, 0xf4d4b551, 0x83d385c7, 0x136c9856,
     0x646ba8c0, 0xfd62f97a, 0x8a65c9ec, 0x14015c4f, 0x63066cd9,
     0xfa0f3d63, 0x8d080df5, 0x3b6e20c8, 0x4c69105e, 0xd56041e4,
     0xa2677172, 0x3c03e4d1, 0x4b04d447, 0xd20d85fd, 0xa50ab56b,
     0x35b5a8fa, 0x42b2986c, 0xdbbbc9d6, 0xacbcf940, 0x32d86ce3,
     0x45df5c75, 0xdcd60dcf, 0xabd13d59, 0x26d930ac, 0x51de003a,
     0xc8d75180, 0xbfd06116, 0x21b4f4b5, 0x56b3c423, 0xcfba9599,
     0xb8bda50f, 0x2802b89e, 0x5f058808, 0xc60cd9b2, 0xb10be924,
     0x2f6f7c87, 0x58684c11, 0xc1611dab, 0xb6662d3d, 0x76dc4190,
     0x01db7106, 0x98d220bc, 0xefd5102a, 0x71b18589, 0x06b6b51f,
     0x9fbfe4a5, 0xe8b8d433, 0x7807c9a2, 0x0f00f934, 0x9609a88e,
     0xe10e9818, 0x7f6a0dbb, 0x086d3d2d, 0x91646c97, 0xe6635c01,
     0x6b6b51f4, 0x1c6c6162, 0x856530d8, 0xf262004e, 0x6c0695ed,
     0x1b01a57b, 0x8208f4c1, 0xf50fc457, 0x65b0d9c6, 0x12b7e950,
     0x8bbeb8ea, 0xfcb9887c, 0x62dd1ddf, 0x15da2d49, 0x8cd37cf3,
     0xfbd44c65, 0x4db26158, 0x3ab551ce, 0xa3bc0074, 0xd4bb30e2,
     0x4adfa541, 0x3dd895d7, 0xa4d1c46d, 0xd3d6f4fb, 0x4369e96a,
     0x346ed9fc, 0xad678846, 0xda60b8d0, 0x44042d73, 0x33031de5,
     0xaa0a4c5f, 0xdd0d7cc9, 0x5005713c, 0x270241aa, 0xbe0b1010,
     0xc90c2086, 0x5768b525, 0x206f85b3, 0xb966d409, 0xce61e49f,
     0x5edef90e, 0x29d9c998, 0xb0d09822, 0xc7d7a8b4, 0x59b33d17,
     0x2eb40d81, 0xb7bd5c3b, 0xc0ba6cad, 0xedb88320, 0x9abfb3b6,
     0x03b6e20c, 0x74b1d29a, 0xead54739, 0x9dd277af, 0x04db2615,
     0x73dc1683, 0xe3630b12, 0x94643b84, 0x0d6d6a3e, 0x7a6a5aa8,
     0xe40ecf0b, 0x9309ff9d, 0x0a00ae27, 0x7d079eb1, 0xf00f9344,
     0x8708a3d2, 0x1e01f268, 0x6906c2fe, 0xf762575d, 0x806567cb,
     0x196c3671, 0x6e6b06e7, 0xfed41b76, 0x89d32be0, 0x10da7a5a,
     0x67dd4acc, 0xf9b9df6f, 0x8ebeeff9, 0x17b7be43, 0x60b08ed5,
     0xd6d6a3e8, 0xa1d1937e, 0x38d8c2c4, 0x4fdff252, 0xd1bb67f1,
     0xa6bc5767, 0x3fb506dd, 0x48b2364b, 0xd80d2bda, 0xaf0a1b4c,
     0x36034af6, 0x41047a60, 0xdf60efc3, 0xa867df55, 0x316e8eef,
     0x4669be79, 0xcb61b38c, 0xbc66831a, 0x256fd2a0, 0x5268e236,
     0xcc0c7795, 0xbb0b4703, 0x220216b9, 0x5505262f, 0xc5ba3bbe,
     0xb2bd0b28, 0x2bb45a92, 0x5cb36a04, 0xc2d7ffa7, 0xb5d0cf31,
     0x2cd99e8b, 0x5bdeae1d, 0x9b64c2b0, 0xec63f226, 0x756aa39c,
     0x026d930a, 0x9c0906a9, 0xeb0e363f, 0x72076785, 0x05005713,
     0x95bf4a82, 0xe2b87a14, 0x7bb12bae, 0x0cb61b38, 0x92d28e9b,
     0xe5d5be0d, 0x7cdcefb7, 0x0bdbdf21, 0x86d3d2d4, 0xf1d4e242,
     0x68ddb3f8, 0x1fda836e, 0x81be16cd, 0xf6b9265b, 0x6fb077e1,
     0x18b74777, 0x88085ae6, 0xff0f6a70, 0x66063bca, 0x11010b5c,
     0x8f659eff, 0xf862ae69, 0x616bffd3, 0x166ccf45, 0xa00ae278,
     0xd70dd2ee, 0x4e048354, 0x3903b3c2, 0xa7672661, 0xd06016f7,
     0x4969474d, 0x3e6e77db, 0xaed16a4a, 0xd9d65adc, 0x40df0b66,
     0x37d83bf0, 0xa9bcae53, 0xdebb9ec5, 0x47b2cf7f, 0x30b5ffe9,
     0xbdbdf21c, 0xcabac28a, 0x53b39330, 0x24b4a3a6, 0xbad03605,
     0xcdd70693, 0x54de5729, 0x23d967bf, 0xb3667a2e, 0xc4614ab8,
     0x5d681b02, 0x2a6f2b94, 0xb40bbe37, 0xc30c8ea1, 0x5a05df1b,
     0x2d02ef8d]"

function protCRC32_table_loop :: "u8 list \<Rightarrow> u16 \<Rightarrow> u16 \<Rightarrow> u32 \<Rightarrow> u32 option" where
  "protCRC32_table_loop buff len i crc32 =
     (if i < len
      then (case read_u8 buff (unat i) of
              None \<Rightarrow> None
            | Some b \<Rightarrow>
                protCRC32_table_loop buff len (i + 1)
                  (crc32_ccitt_table ! unat ((crc32 XOR ucast b) AND 0xff) XOR drop_bit 8 crc32))
      else Some crc32)"
  by pat_completeness auto
termination
proof (relation "measure (\<lambda>(buff, len, i, crc32). unat len - unat i)", goal_cases)
  case 1
  show ?case by simp
next
  case (2 buff len i crc32 b)
  have "unat len < 2 ^ 16"
    using unsigned_less [of len, where 'a = nat] by simp
  with 2 show ?case
    by (simp add: word_less_nat_alt unat_word_ariths)
qed

declare protCRC32_table_loop.simps [simp del]

definition protCRC32 :: "crc_build \<Rightarrow> u8 list \<Rightarrow> u16 \<Rightarrow> u32 option" where
  "protCRC32 build buff len =
     (case build of
        SOFT_CRC \<Rightarrow>
          map_option (\<lambda>crc. crc XOR CRC32_INITIAL) (protCRC32_soft_loop buff len 0 CRC32_INITIAL)
      | TABLE_CRC \<Rightarrow>
          map_option (\<lambda>crc32. crc32 XOR CRC32_INITIAL)
            (protCRC32_table_loop buff len 0 CRC32_INITIAL))"

section \<open>The packed structures\<close>

text \<open>
  Where \<open>PACK_IT\<close> is the packed attribute, a structure declared with it has no
  padding: a member starts where the members before it end. A structure is the list of its members, each with its size in
  bytes; a union is as large as its largest member; bit-fields of type \<open>uint16_t\<close>
  fill 16-bit units.
\<close>

type_synonym members = "(string \<times> nat) list"

definition sizeof_uint8_t :: nat where
  "sizeof_uint8_t = 1"

definition sizeof_uint16_t :: nat where
  "sizeof_uint16_t = 2"

definition sizeof_uint32_t :: nat where
  "sizeof_uint32_t = 4"

definition sizeof_int32_t :: nat where
  "sizeof_int32_t = 4"

fun sizeof_struct :: "members \<Rightarrow> nat" where
  "sizeof_struct [] = 0"
| "sizeof_struct ((name, sz) # ms) = sz + sizeof_struct ms"

fun sizeof_union :: "members \<Rightarrow> nat" where
  "sizeof_union [] = 0"
| "sizeof_union ((name, sz) # ms) = max sz (sizeof_union ms)"

fun offsetof :: "members \<Rightarrow> string \<Rightarrow> nat" where
  "offsetof [] field = 0"
| "offsetof ((name, sz) # ms) field = (if name = field then 0 else sz + offsetof ms field)"


definition sizeof_bitfields16 :: "(string \<times> nat) list \<Rightarrow> nat" where
  "sizeof_bitfields16 fields = sizeof_uint16_t * ((sum_list (map snd fields) + 15) div 16)"

definition ImuData_flag_bits :: "(string \<times> nat) list" where
  "ImuData_flag_bits =
     [(''error'', 1), (''thermostatNotReady'', 1), (''gyroNotReady'', 1),
      (''overVoltage'', 1), (''underVoltage'', 1),
      (''overTemperature'', 1), (''underTemperature'', 1),
      (''ppsNotLocked'', 1),
      (''gyroXOutOfRange'', 1), (''gyroYOutOfRange'', 1), (''gyroZOutOfRange'', 1),
      (''accelXOutOfRange'', 1), (''accelYOutOfRange'', 1), (''accelZOutOfRange'', 1),
      (''reserved'', 2)]"

definition ImuData_t :: members where
  "ImuData_t =
     [(''mux'', sizeof_uint32_t),
      (''flags'', sizeof_union [(''bits'', sizeof_bitfields16 ImuData_flag_bits),
                               (''flags'', sizeof_uint16_t)]),
      (''temperature'', sizeof_uint16_t),
      (''gyro'', 3 * sizeof_int32_t),
      (''accl'', 3 * sizeof_int32_t)]"

definition ImuProt_t :: members where
  "ImuProt_t =
     [(''header'', sizeof_uint16_t),
      (''sequencer'', sizeof_uint8_t),
      (''ff_sequencer'', sizeof_uint8_t),
      (''data'', sizeof_struct ImuData_t),
      (''crc32'', sizeof_uint32_t)]"

section \<open>The validator\<close>

text \<open>
  The cast of the buffer to \<open>const ImuProt_t *\<close> makes every member access a read at
  the member's offset. \<open>~prot->ff_sequencer\<close> promotes the byte to \<open>int\<close>, complements
  all 32 bits, and the initialisation of the \<open>uint8_t\<close> keeps the low eight. The
  length handed to \<open>protCRC32\<close> is converted to \<open>unsigned short\<close>.
\<close>

definition checkImuProtBuffer :: "crc_build \<Rightarrow> u8 list \<Rightarrow> ImuProtError_t option" where
  "checkImuProtBuffer build buffer =
     do {
       header \<leftarrow> read_u16 buffer (offsetof ImuProt_t ''header'');
       if IMU_PROT_HEADER \<noteq> header then Some IMU_PROT_BAD_HEADER
       else do {
         ff_sequencer \<leftarrow> read_u8 buffer (offsetof ImuProt_t ''ff_sequencer'');
         let sequencer = (ucast (NOT (ucast ff_sequencer :: 32 word)) :: u8);
         prot_sequencer \<leftarrow> read_u8 buffer (offsetof ImuProt_t ''sequencer'');
         if prot_sequencer \<noteq> sequencer then Some IMU_PROT_BAD_SEQUENCER
         else do {
           crc \<leftarrow> protCRC32 build buffer
                    (of_nat (sizeof_struct ImuProt_t - sizeof_uint32_t));
           crc32 \<leftarrow> read_u32 buffer (offsetof ImuProt_t ''crc32'');
           if crc \<noteq> crc32 then Some IMU_PROT_BAD_CRC else Some IMU_PROT_OK
         }
       }
     }"

section \<open>The example driver's input\<close>

text \<open>
  \<open>hexStringToByteArray\<close> turns each pair of characters into one byte with
  \<open>strtol(_, NULL, 16)\<close> and drops an odd last character. Only hexadecimal digits are
  modelled; what \<open>strtol\<close> makes of blanks, signs or a \<open>0x\<close> prefix is not, and such a
  string yields \<open>None\<close>.
\<close>

definition hex_digit :: "char \<Rightarrow> nat option" where
  "hex_digit c =
     (let n = (of_char c :: nat) in
      if 48 \<le> n \<and> n \<le> 57 then Some (n - 48)
      else if 65 \<le> n \<and> n \<le> 70 then Some (n - 55)
      else if 97 \<le> n \<and> n \<le> 102 then Some (n - 87)
      else None)"

fun hexStringToByteArray :: "string \<Rightarrow> u8 list option" where
  "hexStringToByteArray (c1 # c2 # cs) =
     (case (hex_digit c1, hex_digit c2) of
        (Some h, Some l) \<Rightarrow> map_option ((#) (of_nat (16 * h + l))) (hexStringToByteArray cs)
      | _ \<Rightarrow> None)"
| "hexStringToByteArray cs = Some []"

text \<open>The first and second packet of the driver's \<open>main\<close>.\<close>

definition packet_1 :: "u8 list" where
  "packet_1 =
     [0x74, 0x95, 0x1E, 0xE1, 0x00, 0x00, 0x00, 0x00, 0x00, 0x00,
      0x81, 0x79, 0xCA, 0xF6, 0xFF, 0xFF, 0x85, 0xFC, 0xFF, 0xFF,
      0xC8, 0x01, 0x00, 0x00, 0x79, 0xEC, 0xFF, 0xFF, 0xDC, 0xE3,
      0xFF, 0xFF, 0xF9, 0xC3, 0x09, 0x00, 0xBA, 0x11, 0xDF, 0x0F]"

definition packet_2 :: "u8 list" where
  "packet_2 =
     [0x74, 0x95, 0x1F, 0xE0, 0x00, 0x00, 0x00, 0x00, 0x00, 0x00,
      0x7F, 0x79, 0xAF, 0xFE, 0xFF, 0xFF, 0xCF, 0xF4, 0xFF, 0xFF,
      0xEA, 0xFB, 0xFF, 0xFF, 0x36, 0xF1, 0xFF, 0xFF, 0xC5, 0xE3,
      0xFF, 0xFF, 0xA8, 0xC3, 0x09, 0x00, 0xC1, 0x4B, 0xE1, 0x15]"

text \<open>The driver's last packet, one payload bit away from its fourth.\<close>

definition packet_broken_payload :: "u8 list" where
  "packet_broken_payload =
     [0x74, 0x95, 0x22, 0xDD, 0x00, 0x00, 0x10, 0x00, 0x00, 0x00,
      0x7F, 0x79, 0x12, 0xEF, 0xFF, 0xFF, 0x99, 0xF4, 0xFF, 0xFF,
      0xFE, 0xF9, 0xFF, 0xFF, 0xBF, 0xEA, 0xFF, 0xFF, 0xAA, 0xDC,
      0xFF, 0xFF, 0xB5, 0xCA, 0x09, 0x00, 0xC8, 0xE4, 0x7F, 0x2F]"

text \<open>
  The first packet with header 0x9474, and with complement byte 0xE0, each with the
  checksum field recomputed for the altered content.
\<close>

definition packet_other_header :: "u8 list" where
  "packet_other_header =
     [0x74, 0x94, 0x1E, 0xE1, 0x00, 0x00, 0x00, 0x00, 0x00, 0x00,
      0x81, 0x79, 0xCA, 0xF6, 0xFF, 0xFF, 0x85, 0xFC, 0xFF, 0xFF,
      0xC8, 0x01, 0x00, 0x00, 0x79, 0xEC, 0xFF, 0xFF, 0xDC, 0xE3,
      0xFF, 0xFF, 0xF9, 0xC3, 0x09, 0x00, 0x72, 0x06, 0x41, 0xC0]"

definition packet_other_complement :: "u8 list" where
  "packet_other_complement =
     [0x74, 0x95, 0x1E, 0xE0, 0x00, 0x00, 0x00, 0x00, 0x00, 0x00,
      0x81, 0x79, 0xCA, 0xF6, 0xFF, 0xFF, 0x85, 0xFC, 0xFF, 0xFF,
      0xC8, 0x01, 0x00, 0x00, 0x79, 0xEC, 0xFF, 0xFF, 0xDC, 0xE3,
      0xFF, 0xFF, 0xF9, 0xC3, 0x09, 0x00, 0x49, 0x81, 0x2D, 0x39]"

section \<open>Auxiliary notions for the proofs\<close>

text \<open>One round of the inner loop's body, and one byte's worth of either loop.\<close>

definition crc_step :: "u32 \<Rightarrow> u32" where
  "crc_step crc =
     (if crc AND 1 \<noteq> 0 then drop_bit 1 crc XOR CRC32_POLYNOM else drop_bit 1 crc)"

definition crc_table_entry :: "nat \<Rightarrow> u32" where
  "crc_table_entry n = protCRC32_soft_bits 0 (of_nat n)"

definition soft_byte :: "u8 \<Rightarrow> u32 \<Rightarrow> u32" where
  "soft_byte b crc = protCRC32_soft_bits 0 (crc XOR ucast b)"

definition table_byte :: "u8 \<Rightarrow> u32 \<Rightarrow> u32" where
  "table_byte b crc32 =
     crc32_ccitt_table ! unat ((crc32 XOR ucast b) AND 0xff) XOR drop_bit 8 crc32"

definition crc_byte :: "crc_build \<Rightarrow> u8 \<Rightarrow> u32 \<Rightarrow> u32" where
  "crc_byte build = (case build of SOFT_CRC \<Rightarrow> soft_byte | TABLE_CRC \<Rightarrow> table_byte)"

section \<open>The layout, computed\<close>

lemma sizeof_ImuData_t: "sizeof_struct ImuData_t = 32"
  by (simp add: ImuData_t_def ImuData_flag_bits_def sizeof_bitfields16_def
      sizeof_uint16_t_def sizeof_uint32_t_def sizeof_int32_t_def)

lemma sizeof_ImuProt_t: "sizeof_struct ImuProt_t = 40"
  by (simp add: ImuProt_t_def sizeof_ImuData_t sizeof_uint8_t_def
      sizeof_uint16_t_def sizeof_uint32_t_def)

lemma offsetof_ImuProt_t:
  "offsetof ImuProt_t ''header'' = 0"
  "offsetof ImuProt_t ''sequencer'' = 2"
  "offsetof ImuProt_t ''ff_sequencer'' = 3"
  "offsetof ImuProt_t ''data'' = 4"
  "offsetof ImuProt_t ''crc32'' = 36"
  by (simp_all add: ImuProt_t_def sizeof_ImuData_t sizeof_uint8_t_def
      sizeof_uint16_t_def sizeof_uint32_t_def)



section \<open>Eight rounds of the inner loop\<close>

lemma soft_bits_step:
  "j < 8 \<Longrightarrow> protCRC32_soft_bits j crc = protCRC32_soft_bits (j + 1) (crc_step crc)"
  by (subst protCRC32_soft_bits.simps) (simp add: crc_step_def)

lemma soft_bits_done: "protCRC32_soft_bits 8 crc = crc"
  by (subst protCRC32_soft_bits.simps) simp

lemma soft_bits_unfold:
  "protCRC32_soft_bits 0 crc =
     crc_step (crc_step (crc_step (crc_step (crc_step (crc_step (crc_step (crc_step crc)))))))"
  by (simp add: soft_bits_step soft_bits_done)

lemma soft_bits_funpow: "protCRC32_soft_bits 0 crc = (crc_step ^^ 8) crc"
  by (simp add: soft_bits_unfold eval_nat_numeral)

text \<open>A round is linear over exclusive or, and a plain shift on an even word.\<close>

lemma crc_step_alt: "crc_step crc = drop_bit 1 crc XOR (if odd crc then CRC32_POLYNOM else 0)"
  by (cases "odd crc") (simp_all add: crc_step_def and_one_eq mod_2_eq_odd)

lemma crc_step_xor: "crc_step (a XOR b) = crc_step a XOR crc_step b"
  by (cases "odd a"; cases "odd b")
     (simp_all add: crc_step_alt even_xor_iff drop_bit_xor ac_simps)

lemma crc_steps_xor: "(crc_step ^^ k) (a XOR b) = (crc_step ^^ k) a XOR (crc_step ^^ k) b"
  by (induction k) (simp_all add: crc_step_xor)

lemma crc_steps_high: "take_bit k y = 0 \<Longrightarrow> (crc_step ^^ k) y = drop_bit k y"
proof (induction k)
  case 0
  then show ?case by simp
next
  case (Suc k)
  have "take_bit k y = take_bit k (take_bit (Suc k) y)"
    by simp
  with Suc.prems have low: "take_bit k y = 0"
    by simp
  have "bit (take_bit (Suc k) y) k = bit y k"
    by (simp add: bit_take_bit_iff)
  with Suc.prems have "\<not> bit y k"
    by simp
  then have "even (drop_bit k y)"
    by (simp add: bit_iff_odd_drop_bit)
  with Suc.IH [OF low] show ?case
    by (simp add: crc_step_alt drop_bit_drop_bit)
qed

section \<open>The table holds the inner loop's results\<close>

lemma table_entries_0:
  "map crc_table_entry [0..<32] = take 32 (drop 0 crc32_ccitt_table)"
  by (simp add: upt_conv_Cons crc_table_entry_def soft_bits_unfold crc_step_def
      CRC32_POLYNOM_def crc32_ccitt_table_def)

lemma table_entries_1:
  "map crc_table_entry [32..<64] = take 32 (drop 32 crc32_ccitt_table)"
  by (simp add: upt_conv_Cons crc_table_entry_def soft_bits_unfold crc_step_def
      CRC32_POLYNOM_def crc32_ccitt_table_def)

lemma table_entries_2:
  "map crc_table_entry [64..<96] = take 32 (drop 64 crc32_ccitt_table)"
  by (simp add: upt_conv_Cons crc_table_entry_def soft_bits_unfold crc_step_def
      CRC32_POLYNOM_def crc32_ccitt_table_def)

lemma table_entries_3:
  "map crc_table_entry [96..<128] = take 32 (drop 96 crc32_ccitt_table)"
  by (simp add: upt_conv_Cons crc_table_entry_def soft_bits_unfold crc_step_def
      CRC32_POLYNOM_def crc32_ccitt_table_def)

lemma table_entries_4:
  "map crc_table_entry [128..<160] = take 32 (drop 128 crc32_ccitt_table)"
  by (simp add: upt_conv_Cons crc_table_entry_def soft_bits_unfold crc_step_def
      CRC32_POLYNOM_def crc32_ccitt_table_def)

lemma table_entries_5:
  "map crc_table_entry [160..<192] = take 32 (drop 160 crc32_ccitt_table)"
  by (simp add: upt_conv_Cons crc_table_entry_def soft_bits_unfold crc_step_def
      CRC32_POLYNOM_def crc32_ccitt_table_def)

lemma table_entries_6:
  "map crc_table_entry [192..<224] = take 32 (drop 192 crc32_ccitt_table)"
  by (simp add: upt_conv_Cons crc_table_entry_def soft_bits_unfold crc_step_def
      CRC32_POLYNOM_def crc32_ccitt_table_def)

lemma table_entries_7:
  "map crc_table_entry [224..<256] = take 32 (drop 224 crc32_ccitt_table)"
  by (simp add: upt_conv_Cons crc_table_entry_def soft_bits_unfold crc_step_def
      CRC32_POLYNOM_def crc32_ccitt_table_def)

lemma upt_join: "i \<le> j \<Longrightarrow> j \<le> k \<Longrightarrow> [i..<j] @ [j..<k] = [i..<k]"
  using upt_add_eq_append [of i j "k - j"] by simp

lemma upt_256:
  "[0..<256] =
     [0..<32] @ [32..<64] @ [64..<96] @ [96..<128] @
     [128..<160] @ [160..<192] @ [192..<224] @ [224..<256]"
  by (simp add: upt_join del: upt_rec_numeral)

lemma table_split:
  "crc32_ccitt_table =
     take 32 (drop 0 crc32_ccitt_table) @ take 32 (drop 32 crc32_ccitt_table) @
     take 32 (drop 64 crc32_ccitt_table) @ take 32 (drop 96 crc32_ccitt_table) @
     take 32 (drop 128 crc32_ccitt_table) @ take 32 (drop 160 crc32_ccitt_table) @
     take 32 (drop 192 crc32_ccitt_table) @ take 32 (drop 224 crc32_ccitt_table)"
  by (simp add: crc32_ccitt_table_def)

lemma table_entries: "map crc_table_entry [0..<256] = crc32_ccitt_table"
  apply (subst table_split)
  apply (subst upt_256)
  apply (simp only: map_append table_entries_0 table_entries_1 table_entries_2 table_entries_3
      table_entries_4 table_entries_5 table_entries_6 table_entries_7)
  done

lemma table_nth:
  assumes "n < 256"
  shows "crc32_ccitt_table ! n = protCRC32_soft_bits 0 (of_nat n)"
proof -
  have "map crc_table_entry [0..<256] ! n = crc_table_entry n"
    using assms by simp
  then show ?thesis
    by (simp add: table_entries crc_table_entry_def)
qed

text \<open>
  The byte to look up splits into its low eight bits, which the table covers, and the
  rest, which eight rounds only shift.
\<close>

lemma table_lookup_is_soft_bits:
  fixes crc :: u32 and b :: u8
  shows "crc32_ccitt_table ! unat ((crc XOR ucast b) AND 0xff) XOR drop_bit 8 crc =
         protCRC32_soft_bits 0 (crc XOR ucast b)"
proof -
  define x where "x = crc XOR (ucast b :: u32)"
  define lo where "lo = take_bit 8 x"
  define hi where "hi = push_bit 8 (drop_bit 8 x)"
  have mask: "x AND 0xff = lo"
    using take_bit_eq_mask [of 8 x] by (simp add: lo_def mask_eq_exp_minus_1)
  have split: "x = lo XOR hi"
    unfolding lo_def hi_def
    by (rule bit_word_eqI) (auto simp add: bit_simps)
  have "unat lo = take_bit 8 (unat x)"
    unfolding lo_def by (simp add: unsigned_take_bit_eq)
  moreover have "take_bit 8 (unat x) < 2 ^ 8"
    by (rule take_bit_nat_less_exp)
  ultimately have lo_small: "unat lo < 256"
    by simp
  have lo_table: "crc32_ccitt_table ! unat lo = (crc_step ^^ 8) lo"
    using table_nth [OF lo_small] by (simp add: soft_bits_funpow)
  have "take_bit 8 hi = 0"
    unfolding hi_def by (simp add: take_bit_push_bit)
  then have "(crc_step ^^ 8) hi = drop_bit 8 hi"
    by (rule crc_steps_high)
  also have "\<dots> = drop_bit 8 x"
    unfolding hi_def by (rule bit_word_eqI) (auto simp add: bit_simps dest: bit_imp_le_length)
  also have "\<dots> = drop_bit 8 crc"
    unfolding x_def by (rule bit_word_eqI) (auto simp add: bit_simps dest: bit_imp_le_length)
  finally have hi_shift: "(crc_step ^^ 8) hi = drop_bit 8 crc" .
  have "protCRC32_soft_bits 0 x = (crc_step ^^ 8) lo XOR (crc_step ^^ 8) hi"
    by (simp add: soft_bits_funpow split crc_steps_xor del: funpow.simps)
  with lo_table hi_shift mask show ?thesis
    by (simp add: x_def)
qed

text \<open>The index into the table is a byte, and the table has 256 entries.\<close>

lemma table_index_in_range:
  fixes crc32 :: u32 and b :: u8
  shows "unat ((crc32 XOR ucast b) AND 0xff) < length crc32_ccitt_table"
proof -
  have "(crc32 XOR ucast b) AND 0xff \<le> 0xff"
    by (rule word_and_le1)
  then have "unat ((crc32 XOR ucast b) AND 0xff) \<le> 255"
    by (simp add: word_le_nat_alt)
  moreover have "length crc32_ccitt_table = 256"
    by (simp add: crc32_ccitt_table_def)
  ultimately show ?thesis
    by simp
qed

lemma table_byte_eq_soft_byte: "table_byte = soft_byte"
  by (intro ext) (simp add: table_byte_def soft_byte_def table_lookup_is_soft_bits)

section \<open>The outer loops as folds\<close>

lemma u16_succ_below:
  fixes i len :: u16
  assumes "i < len"
  shows "unat (i + 1) = Suc (unat i)"
proof -
  have "unat len < 2 ^ 16"
    using unsigned_less [of len, where 'a = nat] by simp
  with assms have "unat i + 1 < 2 ^ 16"
    by (simp add: word_less_nat_alt)
  then show ?thesis
    by (simp add: unat_word_ariths)
qed

lemma soft_loop_fold:
  "unat i \<le> unat len \<Longrightarrow>
   protCRC32_soft_loop buff len i crc =
     (if unat len \<le> length buff \<or> i = len
      then Some (fold soft_byte (drop (unat i) (take (unat len) buff)) crc)
      else None)"
proof (induction buff len i crc rule: protCRC32_soft_loop.induct)
  case (1 buff len i crc)
  show ?case
  proof (cases "i < len")
    case False
    with "1.prems" have "i = len"
      by (simp add: word_less_nat_alt word_unat_eq_iff)
    then show ?thesis
      by (subst protCRC32_soft_loop.simps) simp
  next
    case True
    then have suc: "unat (i + 1) = Suc (unat i)"
      by (rule u16_succ_below)
    from True have lt: "unat i < unat len"
      by (simp add: word_less_nat_alt)
    show ?thesis
    proof (cases "unat i < length buff")
      case False
      with True lt show ?thesis
        by (subst protCRC32_soft_loop.simps) (auto simp add: read_u8_def)
    next
      case inb: True
      have rd: "read_u8 buff (unat i) = Some (buff ! unat i)"
        using inb by (simp add: read_u8_def)
      have ih: "protCRC32_soft_loop buff len (i + 1) (soft_byte (buff ! unat i) crc) =
          (if unat len \<le> length buff \<or> i + 1 = len
           then Some (fold soft_byte (drop (unat (i + 1)) (take (unat len) buff))
                        (soft_byte (buff ! unat i) crc))
           else None)"
        using "1.IH" [OF True rd] lt suc by (simp add: soft_byte_def)
      have step: "protCRC32_soft_loop buff len i crc =
          protCRC32_soft_loop buff len (i + 1) (soft_byte (buff ! unat i) crc)"
        using True rd by (subst protCRC32_soft_loop.simps) (simp add: soft_byte_def)
      show ?thesis
      proof (cases "unat len \<le> length buff")
        case True
        with lt have "unat i < length (take (unat len) buff)"
          by simp
        then have "drop (unat i) (take (unat len) buff) =
            take (unat len) buff ! unat i # drop (Suc (unat i)) (take (unat len) buff)"
          by (rule Cons_nth_drop_Suc [symmetric])
        with lt True show ?thesis
          by (simp add: step ih suc)
      next
        case False
        with inb suc have "i + 1 \<noteq> len"
          by auto
        with False \<open>i < len\<close> show ?thesis
          by (auto simp add: step ih)
      qed
    qed
  qed
qed

lemma table_loop_fold:
  "unat i \<le> unat len \<Longrightarrow>
   protCRC32_table_loop buff len i crc =
     (if unat len \<le> length buff \<or> i = len
      then Some (fold table_byte (drop (unat i) (take (unat len) buff)) crc)
      else None)"
proof (induction buff len i crc rule: protCRC32_table_loop.induct)
  case (1 buff len i crc)
  show ?case
  proof (cases "i < len")
    case False
    with "1.prems" have "i = len"
      by (simp add: word_less_nat_alt word_unat_eq_iff)
    then show ?thesis
      by (subst protCRC32_table_loop.simps) simp
  next
    case True
    then have suc: "unat (i + 1) = Suc (unat i)"
      by (rule u16_succ_below)
    from True have lt: "unat i < unat len"
      by (simp add: word_less_nat_alt)
    show ?thesis
    proof (cases "unat i < length buff")
      case False
      with True lt show ?thesis
        by (subst protCRC32_table_loop.simps) (auto simp add: read_u8_def)
    next
      case inb: True
      have rd: "read_u8 buff (unat i) = Some (buff ! unat i)"
        using inb by (simp add: read_u8_def)
      have ih: "protCRC32_table_loop buff len (i + 1) (table_byte (buff ! unat i) crc) =
          (if unat len \<le> length buff \<or> i + 1 = len
           then Some (fold table_byte (drop (unat (i + 1)) (take (unat len) buff))
                        (table_byte (buff ! unat i) crc))
           else None)"
        using "1.IH" [OF True rd] lt suc by (simp add: table_byte_def)
      have step: "protCRC32_table_loop buff len i crc =
          protCRC32_table_loop buff len (i + 1) (table_byte (buff ! unat i) crc)"
        using True rd by (subst protCRC32_table_loop.simps) (simp add: table_byte_def)
      show ?thesis
      proof (cases "unat len \<le> length buff")
        case True
        with lt have "unat i < length (take (unat len) buff)"
          by simp
        then have "drop (unat i) (take (unat len) buff) =
            take (unat len) buff ! unat i # drop (Suc (unat i)) (take (unat len) buff)"
          by (rule Cons_nth_drop_Suc [symmetric])
        with lt True show ?thesis
          by (simp add: step ih suc)
      next
        case False
        with inb suc have "i + 1 \<noteq> len"
          by auto
        with False \<open>i < len\<close> show ?thesis
          by (auto simp add: step ih)
      qed
    qed
  qed
qed

lemma protCRC32_fold:
  "protCRC32 build buff len =
     (if unat len \<le> length buff
      then Some (fold (crc_byte build) (take (unat len) buff) CRC32_INITIAL XOR CRC32_INITIAL)
      else None)"
proof -
  have "len = 0" if "unat len = 0"
    using that by (simp add: unat_eq_0)
  then show ?thesis
    by (cases build) (auto simp add: protCRC32_def crc_byte_def soft_loop_fold table_loop_fold)
qed

lemma protCRC32_builds_agree: "protCRC32 SOFT_CRC buff len = protCRC32 TABLE_CRC buff len"
  by (simp add: protCRC32_fold crc_byte_def table_byte_eq_soft_byte)

lemma protCRC32_any_build: "protCRC32 build buff len = protCRC32 TABLE_CRC buff len"
  by (cases build) (simp_all add: protCRC32_builds_agree)

lemma protCRC32_take:
  assumes "unat len \<le> n"
  shows "protCRC32 build (take n buff) len = protCRC32 build buff len"
  using assms by (auto simp add: protCRC32_fold min_def)

section \<open>The validator, step by step\<close>

lemma read_u8_take: "off < n \<Longrightarrow> read_u8 (take n buffer) off = read_u8 buffer off"
  by (simp add: read_u8_def)

lemma read_u16_take: "off + 1 < n \<Longrightarrow> read_u16 (take n buffer) off = read_u16 buffer off"
  by (simp add: read_u16_def read_u8_take)

lemma read_u32_take: "off + 3 < n \<Longrightarrow> read_u32 (take n buffer) off = read_u32 buffer off"
  by (simp add: read_u32_def read_u8_take)

lemma read_u8_Some: "off < length buffer \<Longrightarrow> read_u8 buffer off = Some (buffer ! off)"
  by (simp add: read_u8_def)

lemma read_u16_Some:
  "off + 1 < length buffer \<Longrightarrow> \<exists>v. read_u16 buffer off = Some v"
  by (simp add: read_u16_def read_u8_def)

lemma read_u32_Some:
  "off + 3 < length buffer \<Longrightarrow> \<exists>v. read_u32 buffer off = Some v"
  by (simp add: read_u32_def read_u8_def)

lemma int_complement_low_byte: "(ucast (NOT (ucast ff :: 32 word)) :: u8) = NOT ff"
  by (rule bit_word_eqI) (auto simp add: bit_simps)

lemma complement_iff_xor: "(s = NOT ff) = (s XOR ff = 0xFF)" for s ff :: u8
proof -
  have all_ones: "(0xFF :: u8) = - 1"
    by simp
  show ?thesis
  proof
    assume "s = NOT ff"
    then show "s XOR ff = 0xFF"
      unfolding all_ones by (simp add: xor.commute)
  next
    assume "s XOR ff = 0xFF"
    then have "(s XOR ff) XOR ff = NOT ff"
      unfolding all_ones by simp
    then show "s = NOT ff"
      by (simp add: xor.assoc)
  qed
qed

lemma checkImuProtBuffer_unfold:
  "checkImuProtBuffer build buffer =
     (case read_u16 buffer 0 of
        None \<Rightarrow> None
      | Some header \<Rightarrow>
          if header \<noteq> IMU_PROT_HEADER then Some IMU_PROT_BAD_HEADER
          else (case read_u8 buffer 3 of
                  None \<Rightarrow> None
                | Some ff \<Rightarrow>
                    (case read_u8 buffer 2 of
                       None \<Rightarrow> None
                     | Some s \<Rightarrow>
                         if s \<noteq> NOT ff then Some IMU_PROT_BAD_SEQUENCER
                         else (case protCRC32 build buffer 36 of
                                 None \<Rightarrow> None
                               | Some crc \<Rightarrow>
                                   (case read_u32 buffer 36 of
                                      None \<Rightarrow> None
                                    | Some crc32 \<Rightarrow>
                                        if crc \<noteq> crc32 then Some IMU_PROT_BAD_CRC
                                        else Some IMU_PROT_OK)))))"
  by (auto simp add: checkImuProtBuffer_def offsetof_ImuProt_t sizeof_ImuProt_t
      sizeof_uint32_t_def int_complement_low_byte Let_def split: option.splits)

lemma checkImuProtBuffer_take:
  "checkImuProtBuffer build (take 40 buffer) = checkImuProtBuffer build buffer"
  by (simp add: checkImuProtBuffer_unfold read_u8_take read_u16_take read_u32_take protCRC32_take
      cong: option.case_cong if_cong)

lemma checkImuProtBuffer_any_build:
  "checkImuProtBuffer build buffer = checkImuProtBuffer TABLE_CRC buffer"
  by (simp add: checkImuProtBuffer_unfold protCRC32_any_build [of build]
      cong: option.case_cong if_cong)

section \<open>The packets, evaluated\<close>

lemma packet_lengths:
  "length packet_1 = 40"
  "length packet_2 = 40"
  "length packet_broken_payload = 40"
  "length packet_other_header = 40"
  "length packet_other_complement = 40"
  by (simp_all add: packet_1_def packet_2_def packet_broken_payload_def
      packet_other_header_def packet_other_complement_def)

lemma packet_1_crc: "protCRC32 TABLE_CRC packet_1 36 = Some 0x0FDF11BA"
  by (simp add: protCRC32_fold crc_byte_def table_byte_def crc32_ccitt_table_def
      CRC32_INITIAL_def packet_1_def)

lemma packet_2_crc: "protCRC32 TABLE_CRC packet_2 36 = Some 0x15E14BC1"
  by (simp add: protCRC32_fold crc_byte_def table_byte_def crc32_ccitt_table_def
      CRC32_INITIAL_def packet_2_def)

lemma packet_broken_payload_crc: "protCRC32 TABLE_CRC packet_broken_payload 36 = Some 0x5F93D8CA"
  by (simp add: protCRC32_fold crc_byte_def table_byte_def crc32_ccitt_table_def
      CRC32_INITIAL_def packet_broken_payload_def)

lemma packet_other_header_crc: "protCRC32 TABLE_CRC packet_other_header 36 = Some 0xC0410672"
  by (simp add: protCRC32_fold crc_byte_def table_byte_def crc32_ccitt_table_def
      CRC32_INITIAL_def packet_other_header_def)

lemma packet_other_complement_crc:
  "protCRC32 TABLE_CRC packet_other_complement 36 = Some 0x392D8149"
  by (simp add: protCRC32_fold crc_byte_def table_byte_def crc32_ccitt_table_def
      CRC32_INITIAL_def packet_other_complement_def)

lemma packet_fields:
  "read_u16 packet_1 0 = Some 0x9574"
  "read_u32 packet_1 36 = Some 0x0FDF11BA"
  "read_u16 packet_broken_payload 0 = Some 0x9574"
  "read_u32 packet_broken_payload 36 = Some 0x2F7FE4C8"
  "read_u16 packet_other_header 0 = Some 0x9474"
  "read_u32 packet_other_header 36 = Some 0xC0410672"
  "read_u16 packet_other_complement 0 = Some 0x9574"
  "read_u32 packet_other_complement 36 = Some 0x392D8149"
  by (simp_all add: read_u16_def read_u32_def read_u8_def packet_1_def
      packet_broken_payload_def packet_other_header_def packet_other_complement_def)

lemma packet_sequencers:
  "read_u8 packet_1 2 = Some 0x1E" "read_u8 packet_1 3 = Some 0xE1"
  "read_u8 packet_broken_payload 2 = Some 0x22" "read_u8 packet_broken_payload 3 = Some 0xDD"
  "read_u8 packet_other_header 2 = Some 0x1E" "read_u8 packet_other_header 3 = Some 0xE1"
  "read_u8 packet_other_complement 2 = Some 0x1E"
  "read_u8 packet_other_complement 3 = Some 0xE0"
  by (simp_all add: read_u8_def packet_1_def packet_broken_payload_def
      packet_other_header_def packet_other_complement_def)

lemma packet_1_verdict: "checkImuProtBuffer TABLE_CRC packet_1 = Some IMU_PROT_OK"
  by (simp add: checkImuProtBuffer_unfold packet_fields packet_sequencers packet_1_crc
      IMU_PROT_HEADER_def)

lemma hex_packet_1:
  "hexStringToByteArray
     ''74951EE10000000000008179CAF6FFFF85FCFFFFC801000079ECFFFFDCE3FFFFF9C30900BA11DF0F'' =
   Some packet_1"
  by (simp add: hex_digit_def packet_1_def)

section \<open>The claims\<close>

text \<open>
  C1. On a buffer of at least 40 bytes with header 0x9574 and with the byte at offset 2
  the complement of the byte at offset 3, the verdict is \<open>IMU_PROT_OK\<close> when
  \<open>protCRC32\<close> over the bytes at offsets 0 to 35 equals the 32-bit little-endian value
  at offset 36, and \<open>IMU_PROT_BAD_CRC\<close> when it differs. On any buffer of at least 40
  bytes a verdict is returned, and it is \<open>IMU_PROT_OK\<close> exactly when header, sequencer
  pair and checksum are all in order.
\<close>

theorem checkImuProtBuffer_crc_verdict:
  assumes "40 \<le> length buffer"
  shows "(read_u16 buffer 0 = Some 0x9574 \<and> buffer ! 2 = NOT (buffer ! 3) \<longrightarrow>
            checkImuProtBuffer build buffer =
              Some (if protCRC32 build (take 36 buffer) 36 = read_u32 buffer 36
                    then IMU_PROT_OK else IMU_PROT_BAD_CRC)) \<and>
         checkImuProtBuffer build buffer \<noteq> None \<and>
         protCRC32 build (take 36 buffer) 36 \<noteq> None \<and>
         read_u32 buffer 36 \<noteq> None \<and>
         ((checkImuProtBuffer build buffer = Some IMU_PROT_OK) =
            (read_u16 buffer 0 = Some 0x9574 \<and> buffer ! 2 = NOT (buffer ! 3) \<and>
             protCRC32 build (take 36 buffer) 36 = read_u32 buffer 36))"
proof -
  from assms obtain header where hdr: "read_u16 buffer 0 = Some header"
    using read_u16_Some [of 0 buffer] by auto
  from assms obtain crc32 where stored: "read_u32 buffer 36 = Some crc32"
    using read_u32_Some [of 36 buffer] by auto
  from assms obtain crc where crc: "protCRC32 build buffer 36 = Some crc"
    by (simp add: protCRC32_fold)
  have pre: "protCRC32 build (take 36 buffer) 36 = protCRC32 build buffer 36"
    by (rule protCRC32_take) simp
  from assms have s: "read_u8 buffer 2 = Some (buffer ! 2)"
    and ff: "read_u8 buffer 3 = Some (buffer ! 3)"
    by (simp_all add: read_u8_def)
  show ?thesis
    by (simp add: checkImuProtBuffer_unfold IMU_PROT_HEADER_def hdr stored crc pre s ff)
qed

theorem checkImuProtBuffer_crc_verdict_witness:
  "40 \<le> length packet_1 \<and> read_u16 packet_1 0 = Some 0x9574 \<and>
   packet_1 ! 2 = NOT (packet_1 ! 3) \<and>
   protCRC32 SOFT_CRC (take 36 packet_1) 36 = read_u32 packet_1 36 \<and>
   checkImuProtBuffer SOFT_CRC packet_1 = Some IMU_PROT_OK \<and>
   40 \<le> length packet_broken_payload \<and> read_u16 packet_broken_payload 0 = Some 0x9574 \<and>
   packet_broken_payload ! 2 = NOT (packet_broken_payload ! 3) \<and>
   protCRC32 SOFT_CRC (take 36 packet_broken_payload) 36 \<noteq> read_u32 packet_broken_payload 36 \<and>
   checkImuProtBuffer SOFT_CRC packet_broken_payload = Some IMU_PROT_BAD_CRC"
proof -
  have len1: "40 \<le> length packet_1" and len2: "40 \<le> length packet_broken_payload"
    by (simp_all add: packet_lengths)
  have seq1: "packet_1 ! 2 = NOT (packet_1 ! 3)"
    by (simp add: packet_1_def)
  have seq2: "packet_broken_payload ! 2 = NOT (packet_broken_payload ! 3)"
    by (simp add: packet_broken_payload_def)
  have crc1: "protCRC32 SOFT_CRC (take 36 packet_1) 36 = read_u32 packet_1 36"
    by (simp add: protCRC32_take protCRC32_any_build [of SOFT_CRC] packet_1_crc packet_fields)
  have crc2: "protCRC32 SOFT_CRC (take 36 packet_broken_payload) 36 \<noteq>
      read_u32 packet_broken_payload 36"
    by (simp add: protCRC32_take protCRC32_any_build [of SOFT_CRC] packet_broken_payload_crc
        packet_fields)
  from checkImuProtBuffer_crc_verdict [OF len1, of SOFT_CRC]
    checkImuProtBuffer_crc_verdict [OF len2, of SOFT_CRC]
    len1 len2 seq1 seq2 crc1 crc2
  show ?thesis
    by (simp add: packet_fields)
qed

text \<open>
  C2. A buffer whose 16-bit little-endian value at offset 0 is not 0x9574 is answered
  \<open>IMU_PROT_BAD_HEADER\<close>, whatever its other bytes are, also when its sequencer pair
  and its checksum are in order.
\<close>

theorem checkImuProtBuffer_bad_header:
  assumes "read_u16 buffer 0 = Some header" and "header \<noteq> 0x9574"
  shows "checkImuProtBuffer build buffer = Some IMU_PROT_BAD_HEADER"
  using assms by (simp add: checkImuProtBuffer_unfold IMU_PROT_HEADER_def)

theorem checkImuProtBuffer_bad_header_witness:
  "read_u16 packet_other_header 0 = Some 0x9474 \<and> (0x9474 :: u16) \<noteq> 0x9574 \<and>
   read_u8 packet_other_header 2 = Some (NOT 0xE1) \<and>
   read_u8 packet_other_header 3 = Some 0xE1 \<and>
   protCRC32 TABLE_CRC packet_other_header 36 = read_u32 packet_other_header 36 \<and>
   checkImuProtBuffer TABLE_CRC packet_other_header = Some IMU_PROT_BAD_HEADER"
proof -
  have hdr: "read_u16 packet_other_header 0 = Some 0x9474"
    by (simp add: packet_fields)
  have neq: "(0x9474 :: u16) \<noteq> 0x9574"
    by simp
  from checkImuProtBuffer_bad_header [OF hdr neq, of TABLE_CRC] hdr show ?thesis
    by (simp add: packet_fields packet_sequencers packet_other_header_crc)
qed

text \<open>
  C3. A buffer with header 0x9574 whose byte at offset 2 is not the complement of the
  byte at offset 3, which is to say that the exclusive or of the two is not 0xFF, is
  answered \<open>IMU_PROT_BAD_SEQUENCER\<close>, also when its checksum field matches its content.
\<close>

theorem checkImuProtBuffer_bad_sequencer:
  assumes "read_u16 buffer 0 = Some 0x9574"
    and "read_u8 buffer 2 = Some s" and "read_u8 buffer 3 = Some ff"
    and "s \<noteq> NOT ff"
  shows "checkImuProtBuffer build buffer = Some IMU_PROT_BAD_SEQUENCER \<and>
         (s \<noteq> NOT ff) = (s XOR ff \<noteq> 0xFF)"
  using assms by (simp add: checkImuProtBuffer_unfold IMU_PROT_HEADER_def complement_iff_xor)

theorem checkImuProtBuffer_bad_sequencer_witness:
  "read_u16 packet_other_complement 0 = Some 0x9574 \<and>
   read_u8 packet_other_complement 2 = Some 0x1E \<and>
   read_u8 packet_other_complement 3 = Some 0xE0 \<and>
   (0x1E :: u8) \<noteq> NOT 0xE0 \<and> (0x1E :: u8) XOR 0xE0 \<noteq> 0xFF \<and>
   protCRC32 TABLE_CRC packet_other_complement 36 = read_u32 packet_other_complement 36 \<and>
   checkImuProtBuffer TABLE_CRC packet_other_complement = Some IMU_PROT_BAD_SEQUENCER"
proof -
  have hdr: "read_u16 packet_other_complement 0 = Some 0x9574"
    and s: "read_u8 packet_other_complement 2 = Some 0x1E"
    and ff: "read_u8 packet_other_complement 3 = Some 0xE0"
    by (simp_all add: packet_fields packet_sequencers)
  have neq: "(0x1E :: u8) \<noteq> NOT 0xE0"
    by simp
  from checkImuProtBuffer_bad_sequencer [OF hdr s ff neq, of TABLE_CRC] hdr s ff neq
  show ?thesis
    by (simp add: packet_fields packet_other_complement_crc)
qed

text \<open>
  C4. For every byte sequence and every length within it, the bit-wise body of
  \<open>protCRC32\<close> (\<open>SOFT_CRC\<close>) and the table-driven body return a result, and it is the
  same 32-bit value.
\<close>

theorem protCRC32_soft_equals_table:
  assumes "unat len \<le> length buff"
  shows "\<exists>crc. protCRC32 SOFT_CRC buff len = Some crc \<and> protCRC32 TABLE_CRC buff len = Some crc"
  using assms by (simp add: protCRC32_fold crc_byte_def table_byte_eq_soft_byte)

theorem protCRC32_soft_equals_table_witness:
  "unat (36 :: u16) \<le> length packet_2 \<and>
   protCRC32 SOFT_CRC packet_2 36 = Some 0x15E14BC1 \<and>
   protCRC32 TABLE_CRC packet_2 36 = Some 0x15E14BC1"
proof -
  have len: "unat (36 :: u16) \<le> length packet_2"
    by (simp add: packet_lengths)
  from protCRC32_soft_equals_table [OF len] obtain crc
    where soft: "protCRC32 SOFT_CRC packet_2 36 = Some crc"
      and table: "protCRC32 TABLE_CRC packet_2 36 = Some crc"
    by blast
  from table have "crc = 0x15E14BC1"
    by (simp add: packet_2_crc)
  with soft len show ?thesis
    by (simp add: packet_2_crc)
qed

text \<open>
  C5. \<open>protCRC32\<close> is the reflected CRC32 with polynomial 0xEDB88320, initial value and
  final exclusive or 0xFFFFFFFF: in either build it returns 0 for length 0, whatever
  the buffer, and 0xCBF43926 for the nine ASCII bytes of "123456789".
\<close>

theorem protCRC32_check_values:
  "CRC32_POLYNOM = 0xEDB88320 \<and> CRC32_INITIAL = 0xFFFFFFFF \<and>
   protCRC32 build buff 0 = Some 0 \<and>
   protCRC32 build (map (of_nat \<circ> of_char) ''123456789'') 9 = Some 0xCBF43926"
proof -
  have "protCRC32 TABLE_CRC buff 0 = Some 0"
    by (simp add: protCRC32_fold)
  moreover have
    "protCRC32 TABLE_CRC (map (of_nat \<circ> of_char) ''123456789'') 9 = Some 0xCBF43926"
    by (simp add: protCRC32_fold crc_byte_def table_byte_def crc32_ccitt_table_def
        CRC32_INITIAL_def)
  ultimately show ?thesis
    by (simp add: protCRC32_any_build [of build] CRC32_POLYNOM_def CRC32_INITIAL_def)
qed

text \<open>
  C6. The bytes of the hex string
  74951EE10000000000008179CAF6FFFF85FCFFFFC801000079ECFFFFDCE3FFFFF9C30900BA11DF0F,
  one byte per pair in order, are a 40-byte buffer on which \<open>checkImuProtBuffer\<close>
  returns \<open>IMU_PROT_OK\<close>; so it does on the driver's larger buffer, whatever follows
  the 40 bytes.
\<close>

theorem checkImuProtBuffer_first_packet:
  "hexStringToByteArray
     ''74951EE10000000000008179CAF6FFFF85FCFFFFC801000079ECFFFFDCE3FFFFF9C30900BA11DF0F'' =
   Some packet_1 \<and>
   length packet_1 = 40 \<and>
   checkImuProtBuffer build packet_1 = Some IMU_PROT_OK \<and>
   checkImuProtBuffer build (packet_1 @ rest) = Some IMU_PROT_OK"
proof -
  have verdict: "checkImuProtBuffer build packet_1 = Some IMU_PROT_OK"
    by (simp add: packet_1_verdict checkImuProtBuffer_any_build [of build])
  have "take 40 (packet_1 @ rest) = packet_1"
    by (simp add: packet_lengths)
  then have "checkImuProtBuffer build (packet_1 @ rest) = checkImuProtBuffer build packet_1"
    using checkImuProtBuffer_take [of build "packet_1 @ rest"] by simp
  with verdict have longer: "checkImuProtBuffer build (packet_1 @ rest) = Some IMU_PROT_OK"
    by simp
  show ?thesis
    by (intro conjI hex_packet_1 packet_lengths verdict longer)
qed

text \<open>
  C7. Two buffers that agree on their first 40 bytes get the same verdict: nothing
  beyond the 40 bytes of \<open>ImuProt_t\<close> is read, so bytes after them, present or not, do
  not matter.
\<close>

theorem checkImuProtBuffer_prefix_only:
  assumes "take 40 a = take 40 b"
  shows "checkImuProtBuffer build a = checkImuProtBuffer build b"
proof -
  have "checkImuProtBuffer build a = checkImuProtBuffer build (take 40 a)"
    by (simp add: checkImuProtBuffer_take)
  also have "\<dots> = checkImuProtBuffer build (take 40 b)"
    by (simp add: assms)
  also have "\<dots> = checkImuProtBuffer build b"
    by (simp add: checkImuProtBuffer_take)
  finally show ?thesis .
qed

theorem checkImuProtBuffer_prefix_only_witness:
  "take 40 (packet_1 @ [0x00]) = take 40 (packet_1 @ [0xFF, 0xFF]) \<and>
   packet_1 @ [0x00] \<noteq> packet_1 @ [0xFF, 0xFF] \<and>
   checkImuProtBuffer SOFT_CRC (packet_1 @ [0x00]) =
     checkImuProtBuffer SOFT_CRC (packet_1 @ [0xFF, 0xFF])"
proof -
  have same: "take 40 (packet_1 @ [0x00]) = take 40 (packet_1 @ [0xFF, 0xFF])"
    by (simp add: packet_lengths)
  from checkImuProtBuffer_prefix_only [OF same, of SOFT_CRC] same show ?thesis
    by simp
qed


end
